theory Spec2Isabelle
  imports Complex_Main "HOL-Library.Log_Nat"
begin

section \<open>Python values and exceptions\<close>

text \<open>
  The arguments an \<open>OSError\<close> carries: MicroPython raises \<open>OSError(errno)\<close> from its
  drivers, the repository raises \<open>OSError('Out of range')\<close>.
\<close>

datatype os_arg = ErrNo int | Msg string

text \<open>
  The exceptions that occur in \<open>sensors.py\<close>. \<open>OSError\<close> carries its \<open>args\<close> tuple;
  \<open>OtherExc\<close> stands for any exception class the file never names.
\<close>

datatype exn =
    OSError "os_arg list"
  | IndexError
  | KeyError
  | AttributeError
  | KeyboardInterrupt
  | OtherExc string

text \<open>
  The numbers that end up in a telemetry record: Python ints and floats. A float is
  embedded by the rational number it denotes.
\<close>

datatype pynum = PInt int | PFloat rat

fun num_of :: "pynum \<Rightarrow> rat" where
  "num_of (PInt n) = of_int n"
| "num_of (PFloat x) = x"

subsection \<open>Python floats\<close>

text \<open>
  A Python float is an IEEE 754 binary64 number: a rational with a significand of 53
  bits (an interpreter built with single-precision floats keeps 24 bits and rounds
  coarser; that format is not modelled). Every float operation returns the exact result rounded to the nearest such
  number, ties going to the even significand. The exponent range is not limited here:
  the results of \<open>distance_cm\<close> neither overflow nor become subnormal for any pulse
  time below \<open>2^1024\<close>.

  \<open>expo x\<close> is the binary exponent of \<open>x \<noteq> 0\<close>, the \<open>e\<close> with
  \<open>2^e \<le> |x| < 2^(e+1)\<close>, found from the bit lengths of numerator and denominator.
\<close>

definition expo :: "rat \<Rightarrow> int" where
  "expo x =
     (let (a, b) = quotient_of \<bar>x\<bar>;
          e = bitlen a - bitlen b
      in if 2 powi e \<le> \<bar>x\<bar> then e else e - 1)"

text \<open>The nearest integer, a tie going to the even one.\<close>

definition round_even :: "rat \<Rightarrow> int" where
  "round_even y =
     (let n = \<lfloor>y\<rfloor>; f = y - of_int n
      in if f < 1 / 2 then n
         else if 1 / 2 < f then n + 1
         else if even n then n else n + 1)"

text \<open>
  \<open>fl x\<close>: the float nearest to \<open>x\<close>, a multiple of the unit in the last place
  \<open>2^(expo x - 52)\<close>.
\<close>

definition fl :: "rat \<Rightarrow> rat" where
  "fl x =
     (if x = 0 then 0
      else let u = 2 powi (expo x - 52) in of_int (round_even (x / u)) * u)"

section \<open>HCSR04: the pulse-echo ranger\<close>

definition ETIMEDOUT :: int where
  "ETIMEDOUT = 110"

definition out_of_range :: exn where
  "out_of_range = OSError [Msg ''Out of range'']"

text \<open>
  \<open>_send_pulse_and_wait\<close>. The argument is the outcome of
  \<open>machine.time_pulse_us(self.echo, 1, self.echo_timeout_us)\<close>: the pulse time, or the
  exception it raised. The handler catches \<open>OSError\<close> only; \<open>ex.args[0]\<close> raises
  \<open>IndexError\<close> on an empty \<open>args\<close>.
\<close>

fun send_pulse_and_wait :: "exn + int \<Rightarrow> exn + int" where
  "send_pulse_and_wait (Inr pulse_time) = Inr pulse_time"
| "send_pulse_and_wait (Inl (OSError [])) = Inl IndexError"
| "send_pulse_and_wait (Inl (OSError (a # args))) =
     (if a = ErrNo ETIMEDOUT then Inl out_of_range else Inl (OSError (a # args)))"
| "send_pulse_and_wait (Inl ex) = Inl ex"

text \<open>\<open>distance_mm\<close>: \<open>pulse_time * 100 // 582\<close>; Python's \<open>//\<close> on ints is floor division.\<close>

definition distance_mm :: "exn + int \<Rightarrow> exn + int" where
  "distance_mm echo =
     (case send_pulse_and_wait echo of
        Inl ex \<Rightarrow> Inl ex
      | Inr pulse_time \<Rightarrow> Inr (pulse_time * 100 div 582))"

text \<open>
  \<open>distance_cm\<close>: \<open>(pulse_time / 2) / 29.1\<close> in float arithmetic. The true division
  of the int by \<open>2\<close> is the rounded quotient, the literal \<open>29.1\<close> is the float nearest
  to \<open>291 / 10\<close>, and the second division rounds again.
\<close>

definition distance_cm :: "exn + int \<Rightarrow> exn + rat" where
  "distance_cm echo =
     (case send_pulse_and_wait echo of
        Inl ex \<Rightarrow> Inl ex
      | Inr pulse_time \<Rightarrow> Inr (fl (fl (of_int pulse_time / 2) / fl (291 / 10))))"


text \<open>
  The low-level faults of the pulse wait, as MicroPython raises them: an \<open>OSError\<close>
  whose first argument is an errno, or an exception of another class.
\<close>

fun errno_fault :: "exn + int \<Rightarrow> bool" where
  "errno_fault (Inl (OSError (ErrNo n # args))) = True"
| "errno_fault (Inl (OSError args)) = False"
| "errno_fault r = True"

fun timed_out :: "exn + int \<Rightarrow> bool" where
  "timed_out (Inl (OSError (ErrNo n # args))) = (n = ETIMEDOUT)"
| "timed_out r = False"

section \<open>AnalogReader: the analog sensor bank\<close>

definition buckets :: "int list" where
  "buckets = [0, 20, 40, 80, 160, 220]"

text \<open>
  The breakpoints \<open>[0.0, 0.2, 0.4, 0.6, 0.8, 1.0]\<close>. A raw reading is an integer, and no
  integer normalises to within \<open>6 / 10^6\<close> of a breakpoint without hitting it exactly
  (only \<open>0.0\<close> and \<open>1.0\<close> are hit), so the comparisons \<open>raw >= p\<close> of the floats
  agree with the comparisons of the exact rationals used here.
\<close>

definition breakpoints :: "rat list" where
  "breakpoints = [0, 2 / 10, 4 / 10, 6 / 10, 8 / 10, 1]"

text \<open>Python's \<open>max\<close> of a list: \<open>ValueError\<close> on the empty list.\<close>

fun py_max :: "int list \<Rightarrow> exn + int" where
  "py_max [] = Inl (OtherExc ''ValueError'')"
| "py_max (x # xs) = Inr (fold max xs x)"

text \<open>
  \<open>max([n for n, p in zip(buckets, [0.0, 0.2, 0.4, 0.6, 0.8, 1.0]) if raw >= p] + [0])\<close>
\<close>

definition bucket_of :: "rat \<Rightarrow> exn + int" where
  "bucket_of raw = py_max ([n. (n, p) \<leftarrow> zip buckets breakpoints, raw \<ge> p] @ [0])"

text \<open>
  The three channel readers, local to \<open>read_sensor_values\<close>. The argument is the outcome
  of \<open>adc.read(4, channel)\<close>; \<open>except OSError\<close> turns a bus fault into \<open>-1.0\<close> and
  lets every other exception through.
\<close>

fun read_light_sensor :: "exn + int \<Rightarrow> exn + pynum" where
  "read_light_sensor (Inr v) =
     (case bucket_of ((of_int v - 335) / 30483) of
        Inl (OSError args) \<Rightarrow> Inr (PFloat (- 1))
      | Inl ex \<Rightarrow> Inl ex
      | Inr n \<Rightarrow> Inr (PInt n))"
| "read_light_sensor (Inl (OSError args)) = Inr (PFloat (- 1))"
| "read_light_sensor (Inl ex) = Inl ex"

fun read_voltage_sensor :: "exn + int \<Rightarrow> exn + pynum" where
  "read_voltage_sensor (Inr v) =
     (case bucket_of ((of_int v - 5169) / 27067) of
        Inl (OSError args) \<Rightarrow> Inr (PFloat (- 1))
      | Inl ex \<Rightarrow> Inl ex
      | Inr n \<Rightarrow> Inr (PInt n))"
| "read_voltage_sensor (Inl (OSError args)) = Inr (PFloat (- 1))"
| "read_voltage_sensor (Inl ex) = Inl ex"

fun read_other_sensor :: "exn + int \<Rightarrow> exn + pynum" where
  "read_other_sensor (Inr v) = Inr (PInt v)"
| "read_other_sensor (Inl (OSError args)) = Inr (PFloat (- 1))"
| "read_other_sensor (Inl ex) = Inl ex"

text \<open>The three lists \<open>light\<close>, \<open>voltage\<close>, \<open>other\<close> the readings are appended to.\<close>

record queues =
  light :: "pynum list"
  voltage :: "pynum list"
  other :: "pynum list"

definition no_readings :: queues where
  "no_readings = \<lparr>light = [], voltage = [], other = []\<rparr>"

text \<open>
  One of the two \<open>for i, c in enumerate(...)\<close> loops: \<open>adc\<close> gives the outcome of
  \<open>adc.read(4, i)\<close> on that device. An exception a reader lets through ends the loop.
\<close>

fun read_device :: "(nat \<Rightarrow> exn + int) \<Rightarrow> (nat \<times> char) list \<Rightarrow> queues \<Rightarrow> exn + queues" where
  "read_device adc [] q = Inr q"
| "read_device adc ((i, c) # rest) q =
     (if c = CHR ''l'' then
        (case read_light_sensor (adc i) of
           Inl ex \<Rightarrow> Inl ex
         | Inr x \<Rightarrow> read_device adc rest (q\<lparr>light := light q @ [x]\<rparr>))
      else if c = CHR ''v'' then
        (case read_voltage_sensor (adc i) of
           Inl ex \<Rightarrow> Inl ex
         | Inr x \<Rightarrow> read_device adc rest (q\<lparr>voltage := voltage q @ [x]\<rparr>))
      else
        (case read_other_sensor (adc i) of
           Inl ex \<Rightarrow> Inl ex
         | Inr x \<Rightarrow> read_device adc rest (q\<lparr>other := other q @ [x]\<rparr>)))"

text \<open>The acquisition phase: \<open>layout[:4]\<close> on \<open>adc_1\<close>, then \<open>layout[4:]\<close> on \<open>adc_2\<close>.\<close>

definition read_channels ::
  "string \<Rightarrow> (nat \<Rightarrow> exn + int) \<Rightarrow> (nat \<Rightarrow> exn + int) \<Rightarrow> exn + queues" where
  "read_channels layout adc_1 adc_2 =
     (case read_device adc_1 (enumerate 0 (take 4 layout)) no_readings of
        Inl ex \<Rightarrow> Inl ex
      | Inr q \<Rightarrow> read_device adc_2 (enumerate 0 (drop 4 layout)) q)"

text \<open>
  The reassembly loop \<open>for o in order\<close>: \<open>q.pop(0) if q else 0.0\<close> on the queue of the
  requested role, appended to \<open>data\<close>.
\<close>

fun reassemble :: "string \<Rightarrow> queues \<Rightarrow> pynum list \<Rightarrow> pynum list" where
  "reassemble [] q data = data"
| "reassemble (c # order) q data =
     (if c = CHR ''l'' then
        (case light q of
           [] \<Rightarrow> reassemble order q (data @ [PFloat 0])
         | x # xs \<Rightarrow> reassemble order (q\<lparr>light := xs\<rparr>) (data @ [x]))
      else if c = CHR ''v'' then
        (case voltage q of
           [] \<Rightarrow> reassemble order q (data @ [PFloat 0])
         | x # xs \<Rightarrow> reassemble order (q\<lparr>voltage := xs\<rparr>) (data @ [x]))
      else
        (case other q of
           [] \<Rightarrow> reassemble order q (data @ [PFloat 0])
         | x # xs \<Rightarrow> reassemble order (q\<lparr>other := xs\<rparr>) (data @ [x])))"

definition read_sensor_values ::
  "string \<Rightarrow> (nat \<Rightarrow> exn + int) \<Rightarrow> (nat \<Rightarrow> exn + int) \<Rightarrow> string \<Rightarrow> exn + pynum list" where
  "read_sensor_values layout adc_1 adc_2 order =
     (case read_channels layout adc_1 adc_2 of
        Inl ex \<Rightarrow> Inl ex
      | Inr q \<Rightarrow> Inr (reassemble order q []))"

subsection \<open>The specification's vocabulary for the bank\<close>

text \<open>
  The bucket rule in the specification's words: \<open>b\<close> is the largest label whose
  breakpoint is at most the fraction \<open>f\<close>, and \<open>0\<close> when \<open>f\<close> is below every breakpoint.
\<close>

definition largest_label :: "rat \<Rightarrow> int \<Rightarrow> bool" where
  "largest_label f b =
     (if \<forall>(n, p) \<in> set (zip buckets breakpoints). f < p then b = 0
      else (\<exists>(n, p) \<in> set (zip buckets breakpoints). n = b \<and> p \<le> f)
         \<and> (\<forall>(n, p) \<in> set (zip buckets breakpoints). p \<le> f \<longrightarrow> n \<le> b))"

text \<open>The bucket as a step function of the fraction.\<close>

definition bucket_step :: "rat \<Rightarrow> int" where
  "bucket_step f =
     (if 1 \<le> f then 220 else if 8 / 10 \<le> f then 160 else if 6 / 10 \<le> f then 80
      else if 4 / 10 \<le> f then 40 else if 2 / 10 \<le> f then 20 else 0)"

datatype role = Light | Voltage | Generic

definition role_of :: "char \<Rightarrow> role" where
  "role_of c = (if c = CHR ''l'' then Light else if c = CHR ''v'' then Voltage else Generic)"

fun queue_of :: "role \<Rightarrow> queues \<Rightarrow> pynum list" where
  "queue_of Light q = light q"
| "queue_of Voltage q = voltage q"
| "queue_of Generic q = other q"

text \<open>A queue with its first reading removed; an empty queue stays empty.\<close>

fun drop_head :: "role \<Rightarrow> queues \<Rightarrow> queues" where
  "drop_head Light q = q\<lparr>light := tl (light q)\<rparr>"
| "drop_head Voltage q = q\<lparr>voltage := tl (voltage q)\<rparr>"
| "drop_head Generic q = q\<lparr>other := tl (other q)\<rparr>"

text \<open>
  What position \<open>i\<close> of the output must hold: the \<open>k\<close>-th reading of the queue of the
  role requested there, \<open>k\<close> being the number of earlier requests for that role, and
  \<open>0.0\<close> once that queue is exhausted.
\<close>

definition popped :: "string \<Rightarrow> queues \<Rightarrow> nat \<Rightarrow> pynum" where
  "popped order q i =
     (let r = role_of (order ! i);
          k = length (filter (\<lambda>c. role_of c = r) (take i order))
      in if k < length (queue_of r q) then queue_of r q ! k else PFloat 0)"

text \<open>
  The channels in physical read order, each with its role character and the outcome of
  its read: device A channels first, then device B.
\<close>

definition physical ::
  "string \<Rightarrow> (nat \<Rightarrow> exn + int) \<Rightarrow> (nat \<Rightarrow> exn + int) \<Rightarrow> (char \<times> (exn + int)) list" where
  "physical layout adc_1 adc_2 =
     map (\<lambda>(i, c). (c, adc_1 i)) (enumerate 0 (take 4 layout))
   @ map (\<lambda>(i, c). (c, adc_2 i)) (enumerate 0 (drop 4 layout))"

text \<open>A read that succeeds or raises a bus fault (\<open>OSError\<close>).\<close>

fun bus_outcome :: "exn + int \<Rightarrow> bool" where
  "bus_outcome (Inr v) = True"
| "bus_outcome (Inl (OSError args)) = True"
| "bus_outcome (Inl ex) = False"

text \<open>The reading a channel of a given role contributes, for such an outcome.\<close>

fun reading :: "char \<times> (exn + int) \<Rightarrow> pynum" where
  "reading (c, Inl ex) = PFloat (- 1)"
| "reading (c, Inr v) =
     (if c = CHR ''l'' then PInt (bucket_step ((of_int v - 335) / 30483))
      else if c = CHR ''v'' then PInt (bucket_step ((of_int v - 5169) / 27067))
      else PInt v)"

text \<open>The readings of one role, in physical read order.\<close>

definition role_readings :: "role \<Rightarrow> (char \<times> (exn + int)) list \<Rightarrow> pynum list" where
  "role_readings r chans = map reading (filter (\<lambda>(c, x). role_of c = r) chans)"

section \<open>start: the telemetry loop\<close>

text \<open>
  What \<open>start\<close> keeps from \<open>config.txt\<close> once the sensors are instantiated: the node
  identifier, the number of configured rangers and the bank's layout string (the two
  \<open>adc\<close> layout words concatenated). Parsing the file and the first association of the
  link happen before the \<open>try\<close> block and are taken as done.
\<close>

record config =
  bot_id :: int
  n_rangers :: nat
  adc_layout :: string

text \<open>The calls on the link and the transport that a run leaves behind, in order.\<close>

datatype event =
    Post "pynum list"
  | Activate bool
  | Connect
  | Disconnect
  | Idle
  | Sleep

record state =
  trace :: "event list"
  ctr :: nat

text \<open>A reply body: the JSON object, as a dictionary of flags.\<close>

type_synonym body = "string \<rightharpoonup> bool"

text \<open>
  What the outside world answers during one iteration of \<open>while True\<close>:
  \<^item> \<open>env_echo k\<close>: \<open>machine.time_pulse_us\<close> for the \<open>k\<close>-th ranger polled;
  \<^item> \<open>env_adc_1 i\<close>, \<open>env_adc_2 i\<close>: \<open>adc.read(4, i)\<close> on each device;
  \<^item> \<open>env_link_up\<close>: \<open>wlan.isconnected()\<close> before the post;
  \<^item> \<open>env_post\<close>: \<open>urequests.post(...)\<close>, an exception or a response, the response
    being the outcome of its \<open>json()\<close>;
  \<^item> \<open>env_link_up_after\<close>: \<open>wlan.isconnected()\<close> in the \<open>except\<close> handler;
  \<^item> \<open>env_rejoin\<close>: the answers of \<open>wlan.isconnected()\<close> in the handler's wait loop;
  \<^item> \<open>env_sleep\<close>: the exception \<open>time.sleep(0.1)\<close> raises, if any;
  \<^item> \<open>env_link_up_at_interrupt\<close>: \<open>wlan.isconnected()\<close> in the
    \<open>KeyboardInterrupt\<close> handler.
\<close>

record cycle_env =
  env_echo :: "nat \<Rightarrow> exn + int"
  env_adc_1 :: "nat \<Rightarrow> exn + int"
  env_adc_2 :: "nat \<Rightarrow> exn + int"
  env_link_up :: bool
  env_post :: "exn + (exn + body)"
  env_link_up_after :: bool
  env_rejoin :: "(exn + bool) list"
  env_sleep :: "exn option"
  env_link_up_at_interrupt :: bool

text \<open>
  \<open>[ds.distance_mm() for ds in distance_sensors[:2]]\<close>: the rangers are polled in
  order and the first exception ends the comprehension.
\<close>

fun poll :: "(exn + int) list \<Rightarrow> exn + int list" where
  "poll [] = Inr []"
| "poll (echo # echoes) =
     (case distance_mm echo of
        Inl ex \<Rightarrow> Inl ex
      | Inr mm \<Rightarrow> (case poll echoes of Inl ex \<Rightarrow> Inl ex | Inr mms \<Rightarrow> Inr (mm # mms)))"

text \<open>
  \<open>data = [bot_id] + [...] + ads.read_sensor_values("vvll_")\<close>, evaluated left to
  right, outside the inner \<open>try\<close>.
\<close>

definition acquire :: "config \<Rightarrow> cycle_env \<Rightarrow> exn + pynum list" where
  "acquire cfg env =
     (case poll (map (env_echo env) [0..<min 2 (n_rangers cfg)]) of
        Inl ex \<Rightarrow> Inl ex
      | Inr mms \<Rightarrow>
          (case read_sensor_values (adc_layout cfg) (env_adc_1 env) (env_adc_2 env) ''vvll_'' of
             Inl ex \<Rightarrow> Inl ex
           | Inr bank \<Rightarrow> Inr (PInt (bot_id cfg) # map PInt mms @ bank)))"

text \<open>
  The rest of the \<open>try\<close> body after the post: \<open>ctr += 1\<close>, \<open>body = response.json()\<close>
  (on \<open>None\<close> an \<open>AttributeError\<close>), \<open>body["endLoop"]\<close> (a \<open>KeyError\<close> when absent).
  The result \<open>Inr True\<close> is the \<open>break\<close>.
\<close>

definition after_post :: "(exn + body) option \<Rightarrow> state \<Rightarrow> (exn + bool) \<times> state" where
  "after_post response s =
     (let s' = s\<lparr>ctr := ctr s + 1\<rparr> in
      case response of
        None \<Rightarrow> (Inl AttributeError, s')
      | Some (Inl ex) \<Rightarrow> (Inl ex, s')
      | Some (Inr body) \<Rightarrow>
          (case body ''endLoop'' of
             None \<Rightarrow> (Inl KeyError, s')
           | Some flag \<Rightarrow> (Inr flag, s')))"

text \<open>The inner \<open>try\<close> body: \<open>response = None\<close>, the post when the link is up.\<close>

definition report :: "cycle_env \<Rightarrow> pynum list \<Rightarrow> state \<Rightarrow> (exn + bool) \<times> state" where
  "report env data s =
     (if env_link_up env then
        (case env_post env of
           Inl ex \<Rightarrow> (Inl ex, s\<lparr>trace := trace s @ [Post data]\<rparr>)
         | Inr response \<Rightarrow> after_post (Some response) (s\<lparr>trace := trace s @ [Post data]\<rparr>))
      else after_post None s)"

text \<open>\<open>except (IndexError, KeyError, OSError)\<close>\<close>

fun caught :: "exn \<Rightarrow> bool" where
  "caught (OSError args) = True"
| "caught IndexError = True"
| "caught KeyError = True"
| "caught ex = False"

datatype wait = Connected | Raised exn | StillWaiting

text \<open>
  \<open>while not wlan.isconnected(): machine.idle()\<close>, fed the answers of
  \<open>isconnected()\<close>; an answer \<open>Inl ex\<close> is an exception raised while waiting. When the
  answers run out the loop is still waiting.
\<close>

fun rejoin_wait :: "(exn + bool) list \<Rightarrow> state \<Rightarrow> wait \<times> state" where
  "rejoin_wait [] s = (StillWaiting, s)"
| "rejoin_wait (Inr True # answers) s = (Connected, s)"
| "rejoin_wait (Inr False # answers) s = rejoin_wait answers (s\<lparr>trace := trace s @ [Idle]\<rparr>)"
| "rejoin_wait (Inl ex # answers) s = (Raised ex, s)"

text \<open>The handler's body: reconnect when the link is down.\<close>

definition recover :: "cycle_env \<Rightarrow> state \<Rightarrow> wait \<times> state" where
  "recover env s =
     (if \<not> env_link_up_after env then
        rejoin_wait (env_rejoin env) (s\<lparr>trace := trace s @ [Activate True, Connect]\<rparr>)
      else (Connected, s))"

datatype step = Next | Break | Raise exn | Stuck

text \<open>\<open>time.sleep(0.1)\<close> at the end of the iteration.\<close>

definition pace :: "cycle_env \<Rightarrow> state \<Rightarrow> step \<times> state" where
  "pace env s =
     (case env_sleep env of
        None \<Rightarrow> (Next, s\<lparr>trace := trace s @ [Sleep]\<rparr>)
      | Some ex \<Rightarrow> (Raise ex, s))"

text \<open>One iteration of \<open>while True\<close>.\<close>

definition cycle :: "config \<Rightarrow> cycle_env \<Rightarrow> state \<Rightarrow> step \<times> state" where
  "cycle cfg env s =
     (case acquire cfg env of
        Inl ex \<Rightarrow> (Raise ex, s)
      | Inr data \<Rightarrow>
          (case report env data s of
             (Inr True, s1) \<Rightarrow> (Break, s1)
           | (Inr False, s1) \<Rightarrow> pace env s1
           | (Inl ex, s1) \<Rightarrow>
               (if caught ex then
                  (case recover env s1 of
                     (Connected, s2) \<Rightarrow> pace env s2
                   | (Raised ex', s2) \<Rightarrow> (Raise ex', s2)
                   | (StillWaiting, s2) \<Rightarrow> (Stuck, s2))
                else (Raise ex, s1))))"

text \<open>
  \<open>except KeyboardInterrupt: if wlan and wlan.isconnected(): wlan.disconnect();
  wlan.active(False)\<close>
\<close>

definition release :: "bool \<Rightarrow> state \<Rightarrow> state" where
  "release up s = (if up then s\<lparr>trace := trace s @ [Disconnect, Activate False]\<rparr> else s)"

datatype ending = ServerStop | Interrupted | Uncaught exn | Running

text \<open>
  The \<open>try\<close> block of \<open>start\<close> from \<open>while True\<close> on, run against the answers of
  finitely many iterations. \<open>Running\<close>: the answers ran out with the loop (or the wait
  for the link) still going.
\<close>

fun start :: "config \<Rightarrow> cycle_env list \<Rightarrow> state \<Rightarrow> ending \<times> state" where
  "start cfg [] s = (Running, s)"
| "start cfg (env # envs) s =
     (case cycle cfg env s of
        (Next, s') \<Rightarrow> start cfg envs s'
      | (Break, s') \<Rightarrow> (ServerStop, s')
      | (Stuck, s') \<Rightarrow> (Running, s')
      | (Raise ex, s') \<Rightarrow>
          (if ex = KeyboardInterrupt
           then (Interrupted, release (env_link_up_at_interrupt env) s')
           else (Uncaught ex, s')))"

text \<open>A user interrupt arrives in an iteration: one of its calls raises it.\<close>

definition interrupt_in :: "config \<Rightarrow> cycle_env \<Rightarrow> bool" where
  "interrupt_in cfg env \<longleftrightarrow>
     (\<exists>k < min 2 (n_rangers cfg). env_echo env k = Inl KeyboardInterrupt)
   \<or> (\<exists>(c, r) \<in> set (physical (adc_layout cfg) (env_adc_1 env) (env_adc_2 env)).
         r = Inl KeyboardInterrupt)
   \<or> env_post env = Inl KeyboardInterrupt
   \<or> env_post env = Inr (Inl KeyboardInterrupt)
   \<or> Inl KeyboardInterrupt \<in> set (env_rejoin env)
   \<or> env_sleep env = Some KeyboardInterrupt"

text \<open>The reply of an iteration carries \<open>endLoop\<close> set.\<close>

definition end_loop_reply :: "cycle_env \<Rightarrow> bool" where
  "end_loop_reply env \<longleftrightarrow>
     env_link_up env
   \<and> (case env_post env of
        Inr (Inr body) \<Rightarrow> body ''endLoop'' = Some True
      | _ \<Rightarrow> False)"

text \<open>
  The try body raises an exception the handler catches: the post or \<open>json()\<close> raises
  one, or the reply has no \<open>endLoop\<close> (the \<open>KeyError\<close> of the lookup).
\<close>

definition caught_failure :: "cycle_env \<Rightarrow> bool" where
  "caught_failure env \<longleftrightarrow>
     env_link_up env
   \<and> (case env_post env of
        Inl ex \<Rightarrow> caught ex
      | Inr (Inl ex) \<Rightarrow> caught ex
      | Inr (Inr body) \<Rightarrow> body ''endLoop'' = None)"

text \<open>The events an iteration can append: never a release of the link.\<close>

definition keeps_link :: "event list \<Rightarrow> bool" where
  "keeps_link evs \<longleftrightarrow> Disconnect \<notin> set evs \<and> Activate False \<notin> set evs"

subsection \<open>A concrete node\<close>

text \<open>
  A node with two rangers and the layout \<open>"vvll____"\<close>, the state at the top of the
  \<open>try\<close> block, and an uneventful iteration: both echoes take 1000 us, every channel
  reads 20000, the link is up, the reply says \<open>{"endLoop": false}\<close>.
\<close>

definition node :: config where
  "node = \<lparr>bot_id = 7, n_rangers = 2, adc_layout = ''vvll____''\<rparr>"

definition boot :: state where
  "boot = \<lparr>trace = [], ctr = 0\<rparr>"

definition nominal :: cycle_env where
  "nominal =
     \<lparr>env_echo = (\<lambda>k. Inr 1000),
      env_adc_1 = (\<lambda>i. Inr 20000),
      env_adc_2 = (\<lambda>i. Inr 20000),
      env_link_up = True,
      env_post = Inr (Inr [''endLoop'' \<mapsto> False]),
      env_link_up_after = True,
      env_rejoin = [],
      env_sleep = None,
      env_link_up_at_interrupt = True\<rparr>"

definition nominal_record :: "pynum list" where
  "nominal_record =
     [PInt 7, PInt 171, PInt 171, PInt 40, PInt 40, PInt 80, PInt 80, PInt 20000]"

section \<open>Ranger theorems\<close>


subsection \<open>Float rounding\<close>





lemma round_even_nonneg: "0 \<le> y \<Longrightarrow> 0 \<le> round_even y"
  by (auto simp: round_even_def Let_def)


lemma fl_nonneg: "0 \<le> x \<Longrightarrow> 0 \<le> fl x"
  by (auto simp: fl_def Let_def intro!: mult_nonneg_nonneg round_even_nonneg)












lemma send_pulse_and_wait_timeout:
  "errno_fault echo \<Longrightarrow> send_pulse_and_wait echo = Inl out_of_range \<longleftrightarrow> timed_out echo"
  by (induction echo rule: errno_fault.induct) (auto simp: out_of_range_def)

lemma send_pulse_and_wait_other:
  "errno_fault (Inl ex) \<Longrightarrow> \<not> timed_out (Inl ex) \<Longrightarrow> send_pulse_and_wait (Inl ex) = Inl ex"
  by (induction "Inl ex :: exn + int" rule: errno_fault.induct) auto

text \<open>
  C2. With the low-level faults as MicroPython raises them (an \<open>OSError\<close> carries an
  errno), a Ranger measurement fails with \<open>OSError('Out of range')\<close> if and only if the
  pulse wait reported \<open>ETIMEDOUT\<close>; every other fault reaches the caller unchanged; and
  a pulse time \<open>\<ge> 0\<close> never gives a negative distance. Stated for both accessors.
\<close>

theorem ranger_out_of_range:
  assumes "errno_fault echo"
  shows "(distance_mm echo = Inl out_of_range \<longleftrightarrow> timed_out echo)
       \<and> (distance_cm echo = Inl out_of_range \<longleftrightarrow> timed_out echo)
       \<and> (\<forall>ex. echo = Inl ex \<and> \<not> timed_out echo
             \<longrightarrow> distance_mm echo = Inl ex \<and> distance_cm echo = Inl ex)
       \<and> (\<forall>pulse. echo = Inr pulse \<and> 0 \<le> pulse
             \<longrightarrow> (\<exists>mm cm. distance_mm echo = Inr mm \<and> 0 \<le> mm
                        \<and> distance_cm echo = Inr cm \<and> 0 \<le> cm))"
proof -
  have mm: "distance_mm echo = Inl out_of_range \<longleftrightarrow> send_pulse_and_wait echo = Inl out_of_range"
    by (simp add: distance_mm_def split: sum.splits)
  have cm: "distance_cm echo = Inl out_of_range \<longleftrightarrow> send_pulse_and_wait echo = Inl out_of_range"
    by (simp add: distance_cm_def split: sum.splits)
  have other: "distance_mm echo = Inl ex \<and> distance_cm echo = Inl ex"
    if "echo = Inl ex" "\<not> timed_out echo" for ex
    using that assms send_pulse_and_wait_other [of ex]
    by (simp add: distance_mm_def distance_cm_def)
  have ok: "\<exists>mm cm. distance_mm echo = Inr mm \<and> 0 \<le> mm \<and> distance_cm echo = Inr cm \<and> 0 \<le> cm"
    if "echo = Inr pulse" "0 \<le> pulse" for pulse
  proof -
    have a: "0 \<le> pulse * 100 div 582"
      using that by (simp add: pos_imp_zdiv_nonneg_iff)
    have b: "(0::rat) \<le> fl (fl (of_int pulse / 2) / fl (291 / 10))"
      using that by (intro fl_nonneg divide_nonneg_nonneg) simp_all
    show ?thesis
      unfolding distance_mm_def distance_cm_def that(1) send_pulse_and_wait.simps sum.case
      using a b by blast
  qed
  from mm cm other ok send_pulse_and_wait_timeout [OF assms] show ?thesis
    by blast
qed

theorem ranger_out_of_range_witness:
  "errno_fault (Inl (OSError [ErrNo 110]))
   \<and> distance_mm (Inl (OSError [ErrNo 110])) = Inl (OSError [Msg ''Out of range''])
   \<and> distance_cm (Inl (OSError [ErrNo 110])) = Inl (OSError [Msg ''Out of range''])
   \<and> errno_fault (Inl (OSError [ErrNo 19]))
   \<and> distance_mm (Inl (OSError [ErrNo 19])) = Inl (OSError [ErrNo 19])
   \<and> errno_fault (Inr 1000)
   \<and> distance_mm (Inr 1000) = Inr 171"
  using ranger_out_of_range [of "Inl (OSError [ErrNo 110])"]
        ranger_out_of_range [of "Inl (OSError [ErrNo 19])"]
        ranger_out_of_range [of "Inr 1000"]
  by (simp add: out_of_range_def ETIMEDOUT_def distance_mm_def)

section \<open>Sensor bank theorems\<close>

text \<open>
  The gap behind the exact breakpoints: a normalised integer reading either hits a
  breakpoint or stays more than \<open>6 / 10^6\<close> away from it, far beyond the rounding
  of the float division and of the float constants.
\<close>

lemma fraction_gap:
  fixes v k m :: int
  assumes "0 < m" "of_int v / of_int m \<noteq> (of_int k / 5 :: rat)"
  shows "1 / (5 * of_int m) \<le> \<bar>of_int v / of_int m - (of_int k / 5 :: rat)\<bar>"
proof -
  have m: "(of_int m :: rat) > 0" using assms(1) by simp
  have eq: "of_int v / of_int m - (of_int k / 5 :: rat) = of_int (5 * v - k * m) / (5 * of_int m)"
    using m by (simp add: field_simps)
  have "5 * v - k * m \<noteq> 0"
  proof
    assume "5 * v - k * m = 0"
    then have "5 * v = k * m" by simp
    then have "(5 :: rat) * of_int v = of_int k * of_int m"
      by (metis of_int_mult of_int_numeral)
    then have "of_int v / of_int m = (of_int k / 5 :: rat)"
      using m by (simp add: field_simps)
    with assms(2) show False by simp
  qed
  then have "1 \<le> \<bar>5 * v - k * m\<bar>" by simp
  then have "(1 :: rat) \<le> \<bar>of_int (5 * v - k * m)\<bar>"
    by (metis of_int_1 of_int_abs of_int_le_iff)
  then have "1 / (5 * of_int m) \<le> \<bar>of_int (5 * v - k * m)\<bar> / (5 * of_int m :: rat)"
    using m by (simp add: divide_right_mono)
  also have "\<dots> = \<bar>of_int (5 * v - k * m) / (5 * of_int m :: rat)\<bar>"
    using m by (simp add: abs_divide del: of_int_diff of_int_mult)
  finally show ?thesis using eq by simp
qed

lemma breakpoint_gap:
  fixes raw :: int
  assumes "p \<in> set breakpoints"
  shows "(of_int raw - 335) / 30483 = p \<or> 6 / 10 ^ 6 < \<bar>(of_int raw - 335) / 30483 - p\<bar>"
    and "(of_int raw - 5169) / 27067 = p \<or> 6 / 10 ^ 6 < \<bar>(of_int raw - 5169) / 27067 - p\<bar>"
proof -
  from assms obtain k :: int where p: "p = of_int k / 5"
    by (auto simp: breakpoints_def intro: that [of 0] that [of 1] that [of 2] that [of 3]
        that [of 4] that [of 5])
  have a: "(6 :: rat) / 10 ^ 6 < 1 / (5 * of_int (30483 :: int))" by simp
  have b: "(6 :: rat) / 10 ^ 6 < 1 / (5 * of_int (27067 :: int))" by simp
  have l: "(of_int raw - 335) / 30483 = (of_int (raw - 335) / of_int (30483 :: int) :: rat)"
    by simp
  have v: "(of_int raw - 5169) / 27067 = (of_int (raw - 5169) / of_int (27067 :: int) :: rat)"
    by simp
  show "(of_int raw - 335) / 30483 = p \<or> 6 / 10 ^ 6 < \<bar>(of_int raw - 335) / 30483 - p\<bar>"
    unfolding l p using fraction_gap [of 30483 "raw - 335" k] a by linarith
  show "(of_int raw - 5169) / 27067 = p \<or> 6 / 10 ^ 6 < \<bar>(of_int raw - 5169) / 27067 - p\<bar>"
    unfolding v p using fraction_gap [of 27067 "raw - 5169" k] b by linarith
qed

lemma bucket_of_step: "bucket_of f = Inr (bucket_step f)"
  by (simp add: bucket_of_def bucket_step_def buckets_def breakpoints_def)

lemma bucket_step_largest: "largest_label f (bucket_step f)"
  unfolding largest_label_def bucket_step_def buckets_def breakpoints_def
  by (simp split: if_splits)

lemma bucket_step_mono: "f1 \<le> f2 \<Longrightarrow> bucket_step f1 \<le> bucket_step f2"
  by (simp add: bucket_step_def)

lemma reassemble_acc: "reassemble order q data = data @ reassemble order q []"
proof (induction order arbitrary: q data)
  case Nil
  then show ?case by simp
next
  case (Cons c order)
  have step: "reassemble order q' (data @ [x]) = data @ reassemble order q' [x]" for q' x
    using Cons.IH [of q' "data @ [x]"] Cons.IH [of q' "[x]"] by simp
  show ?case
    by (simp add: step split: list.splits)
qed

lemma drop_head_empty: "queue_of r q = [] \<Longrightarrow> drop_head r q = q"
  by (cases r; cases q) simp_all

lemma reassemble_step:
  "reassemble (c # order) q data =
     reassemble order (drop_head (role_of c) q)
       (data @ [case queue_of (role_of c) q of [] \<Rightarrow> PFloat 0 | x # xs \<Rightarrow> x])"
proof (cases "queue_of (role_of c) q")
  case Nil
  then have "drop_head (role_of c) q = q"
    by (rule drop_head_empty)
  with Nil show ?thesis
    by (auto simp: role_of_def split: if_splits)
next
  case (Cons x xs)
  then show ?thesis
    by (auto simp: role_of_def split: if_splits)
qed

lemma reassemble_length: "length (reassemble order q data) = length data + length order"
  by (induction order arbitrary: q data) (simp_all only: reassemble.simps(1) reassemble_step, simp_all)

lemma reassemble_keeps: "n < length data \<Longrightarrow> reassemble order q data ! n = data ! n"
  by (subst reassemble_acc) (simp add: nth_append)

lemma queue_of_drop_head:
  "queue_of r (drop_head r' q) = (if r = r' then tl (queue_of r q) else queue_of r q)"
  by (cases r; cases r') simp_all

lemma popped_0:
  "popped (c # order) q 0 = (case queue_of (role_of c) q of [] \<Rightarrow> PFloat 0 | x # xs \<Rightarrow> x)"
  by (simp add: popped_def split: list.splits)

lemma popped_Suc: "popped (c # order) q (Suc j) = popped order (drop_head (role_of c) q) j"
  by (cases "queue_of (role_of (order ! j)) q")
     (auto simp: popped_def Let_def queue_of_drop_head)

lemma reassemble_nth:
  "i < length order \<Longrightarrow> reassemble order q data ! (length data + i) = popped order q i"
proof (induction order arbitrary: q data i)
  case Nil
  then show ?case by simp
next
  case (Cons c order)
  let ?x = "case queue_of (role_of c) q of [] \<Rightarrow> PFloat 0 | x # xs \<Rightarrow> x"
  show ?case
  proof (cases i)
    case 0
    then show ?thesis
      by (simp only: reassemble_step popped_0) (simp add: reassemble_keeps)
  next
    case (Suc j)
    then have "j < length order" using Cons.prems by simp
    from Cons.IH [OF this, of "drop_head (role_of c) q" "data @ [?x]"]
    show ?thesis
      using Suc by (simp only: reassemble_step popped_Suc) simp
  qed
qed

lemma read_light_sensor_bus:
  "bus_outcome r \<Longrightarrow> read_light_sensor r = Inr (reading (CHR ''l'', r))"
  by (induction r rule: bus_outcome.induct) (simp_all add: bucket_of_step)

lemma read_voltage_sensor_bus:
  "bus_outcome r \<Longrightarrow> read_voltage_sensor r = Inr (reading (CHR ''v'', r))"
  by (induction r rule: bus_outcome.induct) (simp_all add: bucket_of_step)

lemma read_other_sensor_bus:
  "bus_outcome r \<Longrightarrow> c \<noteq> CHR ''l'' \<Longrightarrow> c \<noteq> CHR ''v'' \<Longrightarrow> read_other_sensor r = Inr (reading (c, r))"
  by (induction r rule: bus_outcome.induct) simp_all

lemma read_device_bus:
  assumes "\<forall>(i, c) \<in> set chans. bus_outcome (adc i)"
  shows "read_device adc chans q =
     Inr \<lparr>light = light q @ role_readings Light (map (\<lambda>(i, c). (c, adc i)) chans),
          voltage = voltage q @ role_readings Voltage (map (\<lambda>(i, c). (c, adc i)) chans),
          other = other q @ role_readings Generic (map (\<lambda>(i, c). (c, adc i)) chans)\<rparr>"
  using assms
proof (induction chans arbitrary: q)
  case Nil
  then show ?case by (simp add: role_readings_def)
next
  case (Cons ic chans)
  obtain i c where ic: "ic = (i, c)" by (cases ic)
  have bus: "bus_outcome (adc i)" using Cons.prems ic by simp
  have rest: "\<forall>(i, c) \<in> set chans. bus_outcome (adc i)" using Cons.prems by simp
  show ?case
    unfolding ic
    by (simp add: Cons.IH [OF rest] read_light_sensor_bus [OF bus]
        read_voltage_sensor_bus [OF bus] read_other_sensor_bus [OF bus]
        role_readings_def role_of_def)
qed

lemma read_channels_bus:
  assumes "\<forall>(c, r) \<in> set (physical layout adc_1 adc_2). bus_outcome r"
  shows "read_channels layout adc_1 adc_2 =
     Inr \<lparr>light = role_readings Light (physical layout adc_1 adc_2),
          voltage = role_readings Voltage (physical layout adc_1 adc_2),
          other = role_readings Generic (physical layout adc_1 adc_2)\<rparr>"
proof -
  have a: "\<forall>(i, c) \<in> set (enumerate 0 (take 4 layout)). bus_outcome (adc_1 i)"
    using assms by (fastforce simp: physical_def)
  have b: "\<forall>(i, c) \<in> set (enumerate 0 (drop 4 layout)). bus_outcome (adc_2 i)"
    using assms by (fastforce simp: physical_def)
  show ?thesis
    by (simp add: read_channels_def read_device_bus [OF a] read_device_bus [OF b]
        no_readings_def physical_def role_readings_def)
qed

lemma length_physical: "length (physical layout adc_1 adc_2) = length layout"
  by (simp add: physical_def)

lemma role_readings_total:
  "length (role_readings Light chans) + length (role_readings Voltage chans)
   + length (role_readings Generic chans) = length chans"
  by (induction chans) (auto simp: role_readings_def role_of_def)

text \<open>
  C3 (amended). For every raw ADC value the light reading is the bucket of
  \<open>(raw - 335) / 30483\<close> and the voltage reading the bucket of
  \<open>(raw - 5169) / 27067\<close>, the bucket being the largest label of
  \<open>[0, 20, 40, 80, 160, 220]\<close> whose breakpoint in \<open>[0.0, 0.2, 0.4, 0.6, 0.8, 1.0]\<close> is
  at most the fraction, and \<open>0\<close> below all breakpoints. Light \<open>raw = 30818\<close> gives
  \<open>220\<close>, \<open>raw = 335\<close> gives \<open>0\<close>, and \<open>raw = 9580\<close> (fraction about \<open>0.303\<close>)
  gives \<open>20\<close>.
\<close>

theorem bucket_calibration:
  "(\<exists>b. read_light_sensor (Inr raw) = Inr (PInt b)
        \<and> largest_label ((of_int raw - 335) / 30483) b)
 \<and> (\<exists>b. read_voltage_sensor (Inr raw) = Inr (PInt b)
        \<and> largest_label ((of_int raw - 5169) / 27067) b)
 \<and> read_light_sensor (Inr 30818) = Inr (PInt 220)
 \<and> read_light_sensor (Inr 335) = Inr (PInt 0)
 \<and> read_light_sensor (Inr 9580) = Inr (PInt 20)"
proof -
  have l: "read_light_sensor (Inr v) = Inr (PInt (bucket_step ((of_int v - 335) / 30483)))" for v
    by (simp add: bucket_of_step)
  have v: "read_voltage_sensor (Inr v) = Inr (PInt (bucket_step ((of_int v - 5169) / 27067)))" for v
    by (simp add: bucket_of_step)
  have e1: "read_light_sensor (Inr 30818) = Inr (PInt 220)"
    unfolding l by (simp add: bucket_step_def)
  have e2: "read_light_sensor (Inr 335) = Inr (PInt 0)"
    unfolding l by (simp add: bucket_step_def)
  have e3: "read_light_sensor (Inr 9580) = Inr (PInt 20)"
    unfolding l by (simp add: bucket_step_def)
  from l v e1 e2 e3 bucket_step_largest show ?thesis
    by blast
qed

theorem bucket_calibration_witness:
  "read_light_sensor (Inr 12529) = Inr (PInt 40)
 \<and> largest_label ((12529 - 335) / 30483) 40
 \<and> read_voltage_sensor (Inr 12529) = Inr (PInt 20)
 \<and> largest_label ((12529 - 5169) / 27067) 20"
  using bucket_calibration [of 12529]
  by (auto simp: bucket_of_step bucket_step_def)

text \<open>
  C3 as stated gives \<open>40\<close> for light \<open>raw = 9580\<close>. The fraction \<open>9245 / 30483\<close> lies
  between the breakpoints \<open>0.2\<close> and \<open>0.4\<close>: the reading is \<open>20\<close>, and \<open>40\<close> is not
  the largest label whose breakpoint is at most the fraction.
\<close>

theorem bucket_example_counterexample:
  "read_light_sensor (Inr 9580) = Inr (PInt 20)
 \<and> read_light_sensor (Inr 9580) \<noteq> Inr (PInt 40)
 \<and> \<not> largest_label ((9580 - 335) / 30483) 40"
  by (simp add: bucket_of_step bucket_step_def largest_label_def buckets_def breakpoints_def)

text \<open>
  C9. The bucket function is monotone: raw values \<open>r1 < r2\<close> normalise to fractions
  \<open>f1 \<le> f2\<close>, and the bucket of \<open>r1\<close> is at most the bucket of \<open>r2\<close>, for the light
  and for the voltage normalisation.
\<close>

theorem bucket_monotone:
  assumes "r1 < r2"
  shows "(of_int r1 - 335) / 30483 \<le> ((of_int r2 - 335) / 30483 :: rat)
       \<and> (of_int r1 - 5169) / 27067 \<le> ((of_int r2 - 5169) / 27067 :: rat)
       \<and> (\<exists>b1 b2. read_light_sensor (Inr r1) = Inr (PInt b1)
              \<and> read_light_sensor (Inr r2) = Inr (PInt b2) \<and> b1 \<le> b2)
       \<and> (\<exists>b1 b2. read_voltage_sensor (Inr r1) = Inr (PInt b1)
              \<and> read_voltage_sensor (Inr r2) = Inr (PInt b2) \<and> b1 \<le> b2)"
proof -
  have f: "(of_int r1 - 335) / 30483 \<le> ((of_int r2 - 335) / 30483 :: rat)"
    using assms by (simp add: divide_right_mono)
  have g: "(of_int r1 - 5169) / 27067 \<le> ((of_int r2 - 5169) / 27067 :: rat)"
    using assms by (simp add: divide_right_mono)
  show ?thesis
    using f g bucket_step_mono [OF f] bucket_step_mono [OF g]
    by (simp add: bucket_of_step)
qed

theorem bucket_monotone_witness:
  "(335::int) < 30818
 \<and> read_light_sensor (Inr 335) = Inr (PInt 0)
 \<and> read_light_sensor (Inr 30818) = Inr (PInt 220)
 \<and> read_voltage_sensor (Inr 335) = Inr (PInt 0)
 \<and> read_voltage_sensor (Inr 30818) = Inr (PInt 160)"
  using bucket_monotone [of 335 30818]
  by (simp add: bucket_of_step bucket_step_def)

lemma read_light_sensor_returns: "read_light_sensor r = Inr x \<Longrightarrow> bus_outcome r"
  by (induction r rule: read_light_sensor.induct) simp_all

lemma read_voltage_sensor_returns: "read_voltage_sensor r = Inr x \<Longrightarrow> bus_outcome r"
  by (induction r rule: read_voltage_sensor.induct) simp_all

lemma read_other_sensor_returns: "read_other_sensor r = Inr x \<Longrightarrow> bus_outcome r"
  by (induction r rule: read_other_sensor.induct) simp_all

lemma read_device_returns:
  "read_device adc chans q = Inr q' \<Longrightarrow> \<forall>(i, c) \<in> set chans. bus_outcome (adc i)"
proof (induction chans arbitrary: q)
  case Nil
  then show ?case by simp
next
  case (Cons ic chans)
  obtain i c where ic: "ic = (i, c)" by (cases ic)
  from Cons.prems show ?case
    unfolding ic
    by (auto split: if_splits sum.splits
        dest: read_light_sensor_returns read_voltage_sensor_returns
          read_other_sensor_returns Cons.IH)
qed

lemma read_channels_returns:
  assumes "read_channels lay a1 a2 = Inr q"
  shows "\<forall>(c, r) \<in> set (physical lay a1 a2). bus_outcome r"
proof -
  from assms obtain q1 where
    one: "read_device a1 (enumerate 0 (take 4 lay)) no_readings = Inr q1" and
    two: "read_device a2 (enumerate 0 (drop 4 lay)) q1 = Inr q"
    by (auto simp: read_channels_def split: sum.splits)
  from read_device_returns [OF one] read_device_returns [OF two] show ?thesis
    by (fastforce simp: physical_def)
qed

text \<open>
  C6. \<open>read_sensor_values\<close> returns exactly when every channel read succeeds or
  raises a bus fault, and whenever it returns, for every \<open>order\<close>, the result has the
  length of \<open>order\<close> and its position \<open>i\<close> holds the next unread value of the queue
  of the role requested there, or \<open>0.0\<close> when that queue is exhausted.
\<close>

theorem read_sensor_values_order:
  "((\<exists>data. read_sensor_values lay a1 a2 order = Inr data)
      \<longleftrightarrow> (\<forall>(c, r) \<in> set (physical lay a1 a2). bus_outcome r))
 \<and> (\<forall>data. read_sensor_values lay a1 a2 order = Inr data \<longrightarrow>
        length data = length order
      \<and> (\<exists>q. read_channels lay a1 a2 = Inr q
            \<and> (\<forall>i < length order. data ! i = popped order q i)))"
proof -
  have ret: "\<exists>data. read_sensor_values lay a1 a2 order = Inr data"
    if "\<forall>(c, r) \<in> set (physical lay a1 a2). bus_outcome r"
    using read_channels_bus [OF that] by (simp add: read_sensor_values_def)
  have bus: "\<forall>(c, r) \<in> set (physical lay a1 a2). bus_outcome r"
    if "read_sensor_values lay a1 a2 order = Inr data" for data
  proof -
    from that obtain q where "read_channels lay a1 a2 = Inr q"
      by (auto simp: read_sensor_values_def split: sum.splits)
    then show ?thesis by (rule read_channels_returns)
  qed
  have props: "length data = length order
      \<and> (\<exists>q. read_channels lay a1 a2 = Inr q
            \<and> (\<forall>i < length order. data ! i = popped order q i))"
    if "read_sensor_values lay a1 a2 order = Inr data" for data
  proof -
    from that obtain q where q: "read_channels lay a1 a2 = Inr q"
      and d: "data = reassemble order q []"
      by (auto simp: read_sensor_values_def split: sum.splits)
    have "length data = length order"
      by (simp add: d reassemble_length)
    moreover have "\<forall>i < length order. data ! i = popped order q i"
      using reassemble_nth [of _ order q "[]"] by (simp add: d)
    ultimately show ?thesis using q by blast
  qed
  from ret bus props show ?thesis
    by blast
qed

theorem read_sensor_values_order_witness:
  "read_sensor_values ''vl__'' (\<lambda>i. Inr (int i)) (\<lambda>i. Inr 0) ''llv''
     = Inr [PInt 0, PFloat 0, PInt 0]"
proof -
  let ?a = "\<lambda>i::nat. Inr (int i) :: exn + int"
  let ?b = "\<lambda>i::nat. Inr 0 :: exn + int"
  have bus: "\<forall>(c, r) \<in> set (physical ''vl__'' ?a ?b). bus_outcome r"
    by (simp add: physical_def enumerate_eq_zip)
  have q: "read_channels ''vl__'' ?a ?b =
      Inr \<lparr>light = [PInt 0], voltage = [PInt 0], other = [PInt 2, PInt 3]\<rparr>"
    by (simp add: read_channels_def no_readings_def enumerate_eq_zip bucket_of_step bucket_step_def)
  from read_sensor_values_order [of "''vl__''" ?a ?b "''llv''"] bus q
  obtain data where d: "read_sensor_values ''vl__'' ?a ?b ''llv'' = Inr data"
    and len: "length data = 3"
    and nth: "\<forall>i < 3. data ! i =
        popped ''llv'' \<lparr>light = [PInt 0], voltage = [PInt 0], other = [PInt 2, PInt 3]\<rparr> i"
    by auto
  have "data ! 0 = PInt 0" "data ! 1 = PFloat 0" "data ! 2 = PInt 0"
    using nth by (simp_all add: popped_def role_of_def)
  with len have "data = [PInt 0, PFloat 0, PInt 0]"
    by (simp add: list_eq_iff_nth_eq nth_Cons' less_Suc_eq numeral_3_eq_3 numeral_2_eq_2)
  with d show ?thesis by simp
qed


text \<open>
  C7. A bus fault (\<open>OSError\<close>) on a channel makes that channel's reading \<open>-1.0\<close> and
  does not end the acquisition: every channel of both devices contributes its reading
  to the queue of its role, in physical order, so the three queues together hold one
  reading per channel of the layout.
\<close>

theorem channel_fault_sentinel:
  assumes "\<forall>(c, r) \<in> set (physical layout adc_1 adc_2). bus_outcome r"
  shows "(\<exists>q. read_channels layout adc_1 adc_2 = Inr q
           \<and> light q = role_readings Light (physical layout adc_1 adc_2)
           \<and> voltage q = role_readings Voltage (physical layout adc_1 adc_2)
           \<and> other q = role_readings Generic (physical layout adc_1 adc_2)
           \<and> length (light q) + length (voltage q) + length (other q) = length layout)
       \<and> read_light_sensor (Inl (OSError args)) = Inr (PFloat (- 1))
       \<and> read_voltage_sensor (Inl (OSError args)) = Inr (PFloat (- 1))
       \<and> read_other_sensor (Inl (OSError args)) = Inr (PFloat (- 1))
       \<and> reading (c, Inl (OSError args)) = PFloat (- 1)
       \<and> num_of (PFloat (- 1)) = - 1"
  using read_channels_bus [OF assms] role_readings_total [of "physical layout adc_1 adc_2"]
  by (simp add: length_physical)

theorem channel_fault_sentinel_witness:
  "read_channels ''vlvl_l_v''
      (\<lambda>i. if i = 1 then Inl (OSError [ErrNo 19]) else Inr 20000) (\<lambda>i. Inr 20000)
     = Inr \<lparr>light = [PFloat (- 1), PInt 80, PInt 80],
            voltage = [PInt 40, PInt 40, PInt 40],
            other = [PInt 20000, PInt 20000]\<rparr>"
proof -
  let ?a = "\<lambda>i::nat. if i = 1 then Inl (OSError [ErrNo 19]) else Inr 20000 :: exn + int"
  let ?b = "\<lambda>i::nat. Inr 20000 :: exn + int"
  have bus: "\<forall>(c, r) \<in> set (physical ''vlvl_l_v'' ?a ?b). bus_outcome r"
    by (simp add: physical_def enumerate_eq_zip)
  from channel_fault_sentinel [OF bus]
  obtain q where "read_channels ''vlvl_l_v'' ?a ?b = Inr q"
    and "light q = role_readings Light (physical ''vlvl_l_v'' ?a ?b)"
    and "voltage q = role_readings Voltage (physical ''vlvl_l_v'' ?a ?b)"
    and "other q = role_readings Generic (physical ''vlvl_l_v'' ?a ?b)"
    by blast
  then show ?thesis
    by (cases q)
       (simp add: role_readings_def physical_def enumerate_eq_zip role_of_def bucket_step_def)
qed

text \<open>
  C8. With layout \<open>"vvll____"\<close> and output order \<open>"lvlv"\<close> the result is exactly
  \<open>[light0, voltage0, light1, voltage1]\<close>: the light readings are those of device A
  channels 2 and 3, the voltage readings those of device A channels 0 and 1, each
  in physical read order.
\<close>

theorem reassembly_order_example:
  assumes "\<forall>(c, r) \<in> set (physical ''vvll____'' adc_1 adc_2). bus_outcome r"
  shows "\<exists>light0 light1 voltage0 voltage1.
           read_voltage_sensor (adc_1 0) = Inr voltage0
         \<and> read_voltage_sensor (adc_1 1) = Inr voltage1
         \<and> read_light_sensor (adc_1 2) = Inr light0
         \<and> read_light_sensor (adc_1 3) = Inr light1
         \<and> role_readings Light (physical ''vvll____'' adc_1 adc_2) = [light0, light1]
         \<and> role_readings Voltage (physical ''vvll____'' adc_1 adc_2) = [voltage0, voltage1]
         \<and> read_sensor_values ''vvll____'' adc_1 adc_2 ''lvlv''
             = Inr [light0, voltage0, light1, voltage1]"
proof -
  have bus: "bus_outcome (adc_1 0)" "bus_outcome (adc_1 1)"
    "bus_outcome (adc_1 2)" "bus_outcome (adc_1 3)"
    using assms by (simp_all add: physical_def enumerate_eq_zip numeral_2_eq_2 numeral_3_eq_3)
  have l: "role_readings Light (physical ''vvll____'' adc_1 adc_2)
      = [reading (CHR ''l'', adc_1 2), reading (CHR ''l'', adc_1 3)]"
    by (simp add: role_readings_def physical_def enumerate_eq_zip role_of_def numeral_2_eq_2 numeral_3_eq_3)
  have v: "role_readings Voltage (physical ''vvll____'' adc_1 adc_2)
      = [reading (CHR ''v'', adc_1 0), reading (CHR ''v'', adc_1 1)]"
    by (simp add: role_readings_def physical_def enumerate_eq_zip role_of_def numeral_2_eq_2 numeral_3_eq_3)
  have "read_sensor_values ''vvll____'' adc_1 adc_2 ''lvlv''
      = Inr [reading (CHR ''l'', adc_1 2), reading (CHR ''v'', adc_1 0),
             reading (CHR ''l'', adc_1 3), reading (CHR ''v'', adc_1 1)]"
    by (simp add: read_sensor_values_def read_channels_bus [OF assms] l v)
  with l v bus show ?thesis
    by (simp add: read_light_sensor_bus read_voltage_sensor_bus)
qed

theorem reassembly_order_example_witness:
  "read_sensor_values ''vvll____'' (\<lambda>i. Inr (8000 + int i * 8000)) (\<lambda>i. Inl (OSError [])) ''lvlv''
     = Inr [PInt 80, PInt 0, PInt 220, PInt 40]"
proof -
  let ?a = "\<lambda>i::nat. Inr (8000 + int i * 8000) :: exn + int"
  let ?b = "\<lambda>i::nat. Inl (OSError []) :: exn + int"
  have bus: "\<forall>(c, r) \<in> set (physical ''vvll____'' ?a ?b). bus_outcome r"
    by (simp add: physical_def enumerate_eq_zip)
  from reassembly_order_example [OF bus] show ?thesis
    by (auto simp: bucket_of_step bucket_step_def)
qed

section \<open>Telemetry loop theorems\<close>

subsection \<open>Where a user interrupt can come from\<close>

lemma send_pulse_and_wait_interrupt:
  "send_pulse_and_wait echo = Inl KeyboardInterrupt \<Longrightarrow> echo = Inl KeyboardInterrupt"
  by (induction echo rule: send_pulse_and_wait.induct)
     (auto simp: out_of_range_def split: if_splits)

lemma distance_mm_interrupt:
  "distance_mm echo = Inl KeyboardInterrupt \<Longrightarrow> echo = Inl KeyboardInterrupt"
  by (auto simp: distance_mm_def split: sum.splits dest: send_pulse_and_wait_interrupt)

lemma poll_interrupt:
  "poll echoes = Inl KeyboardInterrupt \<Longrightarrow> Inl KeyboardInterrupt \<in> set echoes"
  by (induction echoes) (auto split: sum.splits dest: distance_mm_interrupt)

lemma read_light_sensor_interrupt:
  "read_light_sensor r = Inl KeyboardInterrupt \<Longrightarrow> r = Inl KeyboardInterrupt"
  by (induction r rule: read_light_sensor.induct) (simp_all add: bucket_of_step)

lemma read_voltage_sensor_interrupt:
  "read_voltage_sensor r = Inl KeyboardInterrupt \<Longrightarrow> r = Inl KeyboardInterrupt"
  by (induction r rule: read_voltage_sensor.induct) (simp_all add: bucket_of_step)

lemma read_other_sensor_interrupt:
  "read_other_sensor r = Inl KeyboardInterrupt \<Longrightarrow> r = Inl KeyboardInterrupt"
  by (induction r rule: read_other_sensor.induct) simp_all

lemma read_device_interrupt:
  "read_device adc chans q = Inl KeyboardInterrupt
     \<Longrightarrow> \<exists>(i, c) \<in> set chans. adc i = Inl KeyboardInterrupt"
proof (induction chans arbitrary: q)
  case Nil
  then show ?case by simp
next
  case (Cons ic chans)
  obtain i c where ic: "ic = (i, c)" by (cases ic)
  from Cons.prems show ?case
    unfolding ic
    by (auto split: if_splits sum.splits
        dest: read_light_sensor_interrupt read_voltage_sensor_interrupt
          read_other_sensor_interrupt Cons.IH)
qed

lemma read_channels_interrupt:
  assumes "read_channels lay a1 a2 = Inl KeyboardInterrupt"
  shows "\<exists>(c, r) \<in> set (physical lay a1 a2). r = Inl KeyboardInterrupt"
proof (cases "read_device a1 (enumerate 0 (take 4 lay)) no_readings")
  case (Inl ex)
  with assms have "read_device a1 (enumerate 0 (take 4 lay)) no_readings = Inl KeyboardInterrupt"
    by (simp add: read_channels_def)
  from read_device_interrupt [OF this] show ?thesis
    by (fastforce simp: physical_def)
next
  case (Inr q)
  with assms have "read_device a2 (enumerate 0 (drop 4 lay)) q = Inl KeyboardInterrupt"
    by (simp add: read_channels_def)
  from read_device_interrupt [OF this] show ?thesis
    by (fastforce simp: physical_def)
qed

lemma acquire_interrupt:
  assumes "acquire cfg env = Inl KeyboardInterrupt"
  shows "interrupt_in cfg env"
proof (cases "poll (map (env_echo env) [0..<min 2 (n_rangers cfg)])")
  case (Inl ex)
  with assms have "poll (map (env_echo env) [0..<min 2 (n_rangers cfg)]) = Inl KeyboardInterrupt"
    by (simp add: acquire_def)
  from poll_interrupt [OF this]
  have "\<exists>k < min 2 (n_rangers cfg). env_echo env k = Inl KeyboardInterrupt"
    by auto
  then show ?thesis
    unfolding interrupt_in_def by blast
next
  case (Inr mms)
  with assms
  have "read_sensor_values (adc_layout cfg) (env_adc_1 env) (env_adc_2 env) ''vvll_''
      = Inl KeyboardInterrupt"
    by (simp add: acquire_def split: sum.splits)
  then have "read_channels (adc_layout cfg) (env_adc_1 env) (env_adc_2 env) = Inl KeyboardInterrupt"
    by (simp add: read_sensor_values_def split: sum.splits)
  from read_channels_interrupt [OF this] show ?thesis
    unfolding interrupt_in_def by blast
qed

lemma after_post_cases:
  "after_post response s = (r, s') \<Longrightarrow>
     s' = s\<lparr>ctr := ctr s + 1\<rparr>
   \<and> (case response of
        None \<Rightarrow> r = Inl AttributeError
      | Some (Inl ex) \<Rightarrow> r = Inl ex
      | Some (Inr body) \<Rightarrow>
          (case body ''endLoop'' of None \<Rightarrow> r = Inl KeyError | Some flag \<Rightarrow> r = Inr flag))"
  by (auto simp: after_post_def Let_def split: option.splits sum.splits)

lemma report_trace:
  "report env data s = (r, s') \<Longrightarrow>
     trace s' = trace s @ (if env_link_up env then [Post data] else [])"
  by (auto simp: report_def split: if_splits sum.splits dest!: after_post_cases)

lemma report_interrupt:
  "report env data s = (Inl KeyboardInterrupt, s') \<Longrightarrow>
     env_post env = Inl KeyboardInterrupt \<or> env_post env = Inr (Inl KeyboardInterrupt)"
  by (auto simp: report_def split: if_splits sum.splits option.splits dest!: after_post_cases)

lemma report_break:
  "report env data s = (Inr True, s') \<Longrightarrow> end_loop_reply env"
  by (auto simp: report_def end_loop_reply_def split: if_splits sum.splits option.splits
      dest!: after_post_cases)

lemma report_caught:
  "report env data s = (Inl ex, s') \<Longrightarrow> caught ex \<Longrightarrow> caught_failure env"
  unfolding caught_failure_def
  by (auto simp: report_def split: if_splits sum.splits option.splits dest!: after_post_cases)

subsection \<open>What an iteration appends to the trace\<close>

lemma rejoin_wait_trace:
  "rejoin_wait answers s = (w, s') \<Longrightarrow> \<exists>n. trace s' = trace s @ replicate n Idle"
proof (induction answers s rule: rejoin_wait.induct)
  case (3 answers s)
  then obtain n where "trace s' = (trace s @ [Idle]) @ replicate n Idle"
    by auto
  then have "trace s' = trace s @ replicate (Suc n) Idle"
    by simp
  then show ?case by blast
qed (auto intro: exI [of _ 0])

lemma rejoin_wait_interrupt:
  "rejoin_wait answers s = (Raised ex, s') \<Longrightarrow> Inl ex \<in> set answers"
  by (induction answers s rule: rejoin_wait.induct) auto

lemma recover_trace:
  "recover env s = (w, s') \<Longrightarrow>
     \<exists>n. trace s' = trace s
        @ (if env_link_up_after env then [] else [Activate True, Connect] @ replicate n Idle)"
  by (auto simp: recover_def split: if_splits dest!: rejoin_wait_trace)

lemma recover_interrupt:
  "recover env s = (Raised ex, s') \<Longrightarrow> Inl ex \<in> set (env_rejoin env)"
  by (auto simp: recover_def split: if_splits dest: rejoin_wait_interrupt)

lemma pace_trace:
  "pace env s = (st, s') \<Longrightarrow>
     (st = Next \<and> env_sleep env = None \<and> trace s' = trace s @ [Sleep])
   \<or> (\<exists>ex. st = Raise ex \<and> env_sleep env = Some ex \<and> s' = s)"
  by (auto simp: pace_def split: option.splits)

lemma cycle_effect:
  assumes "cycle cfg env s = (st, s')"
  shows "\<exists>evs. trace s' = trace s @ evs \<and> keeps_link evs
           \<and> (Connect \<in> set evs \<longrightarrow> caught_failure env \<and> \<not> env_link_up_after env)
           \<and> (st = Break \<longrightarrow> end_loop_reply env)
           \<and> (st = Raise KeyboardInterrupt \<longrightarrow> interrupt_in cfg env)"
proof (cases "acquire cfg env")
  case (Inl ex)
  with assms have "st = Raise ex" "s' = s"
    by (simp_all add: cycle_def)
  with Inl acquire_interrupt [of cfg env] show ?thesis
    by (auto simp: keeps_link_def intro!: exI [of _ "[]"])
next
  case (Inr data)
  obtain r s1 where rep: "report env data s = (r, s1)"
    by (cases "report env data s")
  note tr1 = report_trace [OF rep]
  show ?thesis
  proof (cases r)
    case (Inr flag)
    show ?thesis
    proof (cases flag)
      case True
      with assms \<open>acquire cfg env = Inr data\<close> rep Inr have "st = Break" "s' = s1"
        by (simp_all add: cycle_def)
      moreover have "end_loop_reply env"
        using report_break [of env data s s1] rep Inr True by simp
      ultimately show ?thesis
        using tr1 by (auto simp: keeps_link_def)
    next
      case False
      with assms \<open>acquire cfg env = Inr data\<close> rep Inr have "pace env s1 = (st, s')"
        by (simp add: cycle_def)
      from pace_trace [OF this] tr1 show ?thesis
        by (auto simp: keeps_link_def interrupt_in_def)
    qed
  next
    case (Inl ex)
    show ?thesis
    proof (cases "caught ex")
      case False
      with assms \<open>acquire cfg env = Inr data\<close> rep Inl have "st = Raise ex" "s' = s1"
        by (simp_all add: cycle_def)
      moreover have "ex = KeyboardInterrupt \<Longrightarrow> interrupt_in cfg env"
        using report_interrupt [of env data s s1] rep Inl unfolding interrupt_in_def by auto
      ultimately show ?thesis
        using tr1 by (auto simp: keeps_link_def)
    next
      case True
      have cf: "caught_failure env"
        using report_caught [of env data s ex s1] rep Inl True by simp
      obtain w s2 where rec: "recover env s1 = (w, s2)"
        by (cases "recover env s1")
      from recover_trace [OF rec] obtain n where tr2:
        "trace s2 = trace s1
           @ (if env_link_up_after env then [] else [Activate True, Connect] @ replicate n Idle)"
        by blast
      show ?thesis
      proof (cases w)
        case Connected
        with assms \<open>acquire cfg env = Inr data\<close> rep Inl True rec have "pace env s2 = (st, s')"
          by (simp add: cycle_def)
        from pace_trace [OF this] tr1 tr2 cf show ?thesis
          by (auto simp: keeps_link_def interrupt_in_def)
      next
        case (Raised ex')
        with assms \<open>acquire cfg env = Inr data\<close> rep Inl True rec
        have "st = Raise ex'" "s' = s2"
          by (simp_all add: cycle_def)
        moreover have "ex' = KeyboardInterrupt \<Longrightarrow> interrupt_in cfg env"
          using recover_interrupt [of env s1 ex' s2] rec Raised unfolding interrupt_in_def by auto
        ultimately show ?thesis
          using tr1 tr2 cf by (auto simp: keeps_link_def)
      next
        case StillWaiting
        with assms \<open>acquire cfg env = Inr data\<close> rep Inl True rec
        have "st = Stuck" "s' = s2"
          by (simp_all add: cycle_def)
        then show ?thesis
          using tr1 tr2 cf by (auto simp: keeps_link_def)
      qed
    qed
  qed
qed

lemma keeps_link_append: "keeps_link (xs @ ys) \<longleftrightarrow> keeps_link xs \<and> keeps_link ys"
  by (auto simp: keeps_link_def)

lemma start_effect:
  "start cfg envs s = (e, s') \<Longrightarrow>
     (e = ServerStop \<longrightarrow> (\<exists>env \<in> set envs. end_loop_reply env))
   \<and> (e = Interrupted \<longrightarrow>
        (\<exists>env \<in> set envs. interrupt_in cfg env
           \<and> (\<exists>evs. keeps_link evs
                 \<and> trace s' = trace s @ evs
                      @ (if env_link_up_at_interrupt env then [Disconnect, Activate False] else []))))"
proof (induction envs arbitrary: s)
  case Nil
  then show ?case by auto
next
  case (Cons env envs)
  obtain st s1 where cyc: "cycle cfg env s = (st, s1)"
    by (cases "cycle cfg env s")
  from cycle_effect [OF cyc] obtain evs where evs:
    "trace s1 = trace s @ evs" "keeps_link evs"
    "st = Break \<longrightarrow> end_loop_reply env"
    "st = Raise KeyboardInterrupt \<longrightarrow> interrupt_in cfg env"
    by blast
  show ?case
  proof (cases st)
    case Next
    with Cons.prems cyc have "start cfg envs s1 = (e, s')"
      by simp
    from Cons.IH [OF this] evs(1,2) show ?thesis
      by (auto simp: keeps_link_append intro!: exI [of _ "evs @ _"])
  next
    case Break
    with Cons.prems cyc evs(3) show ?thesis
      by auto
  next
    case Stuck
    with Cons.prems cyc show ?thesis
      by auto
  next
    case (Raise ex)
    show ?thesis
    proof (cases "ex = KeyboardInterrupt")
      case True
      with Raise Cons.prems cyc
      have "e = Interrupted" "s' = release (env_link_up_at_interrupt env) s1"
        by simp_all
      moreover have "interrupt_in cfg env"
        using evs(4) Raise True by simp
      ultimately show ?thesis
        using evs(1,2) by (auto simp: release_def)
    next
      case False
      with Raise Cons.prems cyc show ?thesis
        by auto
    qed
  qed
qed

lemma acquire_nominal: "acquire node nominal = Inr nominal_record"
  by (simp add: acquire_def node_def nominal_def nominal_record_def distance_mm_def
      read_sensor_values_def read_channels_def no_readings_def enumerate_eq_zip
      bucket_of_step bucket_step_def numeral_2_eq_2)

lemma acquire_same_sensors:
  "env_echo e = env_echo e' \<Longrightarrow> env_adc_1 e = env_adc_1 e' \<Longrightarrow> env_adc_2 e = env_adc_2 e'
     \<Longrightarrow> acquire cfg e = acquire cfg e'"
  by (simp add: acquire_def cong: sum.case_cong)

lemmas run_simps =
  cycle_def report_def after_post_def recover_def pace_def release_def boot_def

text \<open>
  C4. A ranger whose echo times out raises \<open>OSError('Out of range')\<close> outside every
  handler of \<open>start\<close>: the iteration posts nothing, the next iteration never runs and
  the loop ends with the exception uncaught. A bus fault of the sensor bank in the same
  place degrades to \<open>-1.0\<close> and the iteration completes.
\<close>

theorem ranger_timeout_ends_loop:
  "start node [nominal\<lparr>env_echo := (\<lambda>k. Inl (OSError [ErrNo 110]))\<rparr>, nominal] boot
     = (Uncaught (OSError [Msg ''Out of range'']), boot)
 \<and> start node [nominal\<lparr>env_adc_1 := (\<lambda>i. Inl (OSError [ErrNo 110]))\<rparr>] boot
     = (Running,
        \<lparr>trace = [Post [PInt 7, PInt 171, PInt 171, PFloat (- 1), PFloat (- 1),
                         PFloat (- 1), PFloat (- 1), PInt 20000], Sleep],
         ctr = 1\<rparr>)"
proof -
  have a: "acquire node (nominal\<lparr>env_echo := (\<lambda>k. Inl (OSError [ErrNo 110]))\<rparr>)
      = Inl (OSError [Msg ''Out of range''])"
    by (simp add: acquire_def node_def nominal_def distance_mm_def numeral_2_eq_2
        ETIMEDOUT_def out_of_range_def)
  have b: "acquire node (nominal\<lparr>env_adc_1 := (\<lambda>i. Inl (OSError [ErrNo 110]))\<rparr>)
      = Inr [PInt 7, PInt 171, PInt 171, PFloat (- 1), PFloat (- 1),
             PFloat (- 1), PFloat (- 1), PInt 20000]"
    by (simp add: acquire_def node_def nominal_def distance_mm_def numeral_2_eq_2
        read_sensor_values_def read_channels_def no_readings_def enumerate_eq_zip)
  show ?thesis
    by (simp add: a b run_simps) (simp add: nominal_def run_simps)
qed

text \<open>
  C5 (amended). The loop ends without an escaping exception only when a reply carries
  \<open>endLoop\<close> set or a user interrupt arrives. On the interrupt path the handler
  releases the link, \<open>disconnect\<close> followed by \<open>active(False)\<close>, once, at the end of
  the run, when the link is still connected at that moment; when it is already down
  the handler invokes neither.
\<close>

theorem loop_endings:
  assumes "start cfg envs s = (e, s')"
  shows "(e = ServerStop \<longrightarrow> (\<exists>env \<in> set envs. end_loop_reply env))
       \<and> (e = Interrupted \<longrightarrow>
            (\<exists>env \<in> set envs. interrupt_in cfg env
               \<and> (\<exists>evs. keeps_link evs
                     \<and> trace s' = trace s @ evs
                          @ (if env_link_up_at_interrupt env
                             then [Disconnect, Activate False] else []))))"
  using start_effect [OF assms] .

theorem loop_endings_witness:
  "start node [nominal\<lparr>env_sleep := Some KeyboardInterrupt\<rparr>] boot
     = (Interrupted,
        \<lparr>trace = [Post nominal_record, Disconnect, Activate False], ctr = 1\<rparr>)
 \<and> interrupt_in node (nominal\<lparr>env_sleep := Some KeyboardInterrupt\<rparr>)
 \<and> (\<exists>evs. keeps_link evs \<and> [Post nominal_record, Disconnect, Activate False]
           = evs @ [Disconnect, Activate False])
 \<and> start node [nominal\<lparr>env_post := Inr (Inr [''endLoop'' \<mapsto> True])\<rparr>] boot
     = (ServerStop, \<lparr>trace = [Post nominal_record], ctr = 1\<rparr>)
 \<and> end_loop_reply (nominal\<lparr>env_post := Inr (Inr [''endLoop'' \<mapsto> True])\<rparr>)"
proof -
  let ?int = "nominal\<lparr>env_sleep := Some KeyboardInterrupt\<rparr>"
  let ?stop = "nominal\<lparr>env_post := Inr (Inr [''endLoop'' \<mapsto> True])\<rparr>"
  have a: "acquire node ?int = Inr nominal_record" "acquire node ?stop = Inr nominal_record"
    using acquire_nominal acquire_same_sensors [of ?int nominal node]
      acquire_same_sensors [of ?stop nominal node]
    by simp_all
  have r1: "start node [?int] boot
     = (Interrupted, \<lparr>trace = [Post nominal_record, Disconnect, Activate False], ctr = 1\<rparr>)"
    by (simp add: a run_simps) (simp add: nominal_def run_simps)
  have r2: "start node [?stop] boot = (ServerStop, \<lparr>trace = [Post nominal_record], ctr = 1\<rparr>)"
    by (simp add: a run_simps) (simp add: nominal_def run_simps)
  have up: "env_link_up_at_interrupt ?int"
    by (simp add: nominal_def)
  from loop_endings [OF r1] loop_endings [OF r2] r1 r2 up show ?thesis
    by (simp add: boot_def)
qed

text \<open>
  C5 as stated fails on three runs of one iteration: a reply with \<open>endLoop\<close> set ends
  the loop with no release of the link; an interrupt with the link already down ends it
  with no release; and a link that is down before the post ends it with an uncaught
  \<open>AttributeError\<close>, neither by \<open>endLoop\<close> nor by an interrupt.
\<close>

theorem loop_endings_counterexample:
  "start node [nominal\<lparr>env_post := Inr (Inr [''endLoop'' \<mapsto> True])\<rparr>] boot
     = (ServerStop, \<lparr>trace = [Post nominal_record], ctr = 1\<rparr>)
 \<and> start node [nominal\<lparr>env_sleep := Some KeyboardInterrupt,
                         env_link_up_at_interrupt := False\<rparr>] boot
     = (Interrupted, \<lparr>trace = [Post nominal_record], ctr = 1\<rparr>)
 \<and> start node [nominal\<lparr>env_link_up := False\<rparr>] boot
     = (Uncaught AttributeError, \<lparr>trace = [], ctr = 1\<rparr>)
 \<and> Disconnect \<notin> set [Post nominal_record]"
proof -
  have a: "acquire node (nominal\<lparr>env_post := Inr (Inr [''endLoop'' \<mapsto> True])\<rparr>)
      = Inr nominal_record"
    "acquire node (nominal\<lparr>env_sleep := Some KeyboardInterrupt,
        env_link_up_at_interrupt := False\<rparr>) = Inr nominal_record"
    "acquire node (nominal\<lparr>env_link_up := False\<rparr>) = Inr nominal_record"
    using acquire_nominal
      acquire_same_sensors [of "nominal\<lparr>env_post := Inr (Inr [''endLoop'' \<mapsto> True])\<rparr>"
        nominal node]
      acquire_same_sensors [of "nominal\<lparr>env_sleep := Some KeyboardInterrupt,
        env_link_up_at_interrupt := False\<rparr>" nominal node]
      acquire_same_sensors [of "nominal\<lparr>env_link_up := False\<rparr>" nominal node]
    by simp_all
  show ?thesis
    by (simp add: a run_simps) (simp add: nominal_def run_simps)
qed

text \<open>
  C10. When \<open>wlan.isconnected()\<close> is false before the post, \<open>response\<close> stays
  \<open>None\<close>, \<open>response.json()\<close> raises \<open>AttributeError\<close>, which the handler does not
  catch, and \<open>start\<close> ends with it uncaught. The reconnection (\<open>wlan.connect\<close> in the
  handler) is reached only when the link was up before the post and the post, the
  \<open>json()\<close> call or the \<open>endLoop\<close> lookup raised a caught exception.
\<close>

theorem link_down_before_post:
  "(acquire cfg env = Inr data \<and> \<not> env_link_up env \<longrightarrow>
      report env data s = (Inl AttributeError, s\<lparr>ctr := ctr s + 1\<rparr>)
    \<and> \<not> caught AttributeError
    \<and> start cfg (env # envs) s = (Uncaught AttributeError, s\<lparr>ctr := ctr s + 1\<rparr>))
 \<and> (\<forall>evs. trace (snd (cycle cfg env s)) = trace s @ evs \<and> Connect \<in> set evs
        \<longrightarrow> caught_failure env \<and> \<not> env_link_up_after env)"
proof -
  have one: "report env data s = (Inl AttributeError, s\<lparr>ctr := ctr s + 1\<rparr>)
      \<and> \<not> caught AttributeError
      \<and> start cfg (env # envs) s = (Uncaught AttributeError, s\<lparr>ctr := ctr s + 1\<rparr>)"
    if "acquire cfg env = Inr data" "\<not> env_link_up env"
    using that by (simp add: cycle_def report_def after_post_def)
  have two: "caught_failure env \<and> \<not> env_link_up_after env"
    if "trace (snd (cycle cfg env s)) = trace s @ evs" "Connect \<in> set evs" for evs
  proof -
    obtain st s' where cyc: "cycle cfg env s = (st, s')"
      by (cases "cycle cfg env s")
    from cycle_effect [OF cyc] that cyc show ?thesis
      by auto
  qed
  from one two show ?thesis
    by blast
qed

theorem link_down_before_post_witness:
  "acquire node (nominal\<lparr>env_link_up := False\<rparr>) = Inr nominal_record
 \<and> \<not> env_link_up (nominal\<lparr>env_link_up := False\<rparr>)
 \<and> start node [nominal\<lparr>env_link_up := False\<rparr>, nominal] boot
     = (Uncaught AttributeError, \<lparr>trace = [], ctr = 1\<rparr>)
 \<and> trace (snd (cycle node
        (nominal\<lparr>env_post := Inl (OSError [ErrNo 104]), env_link_up_after := False,
                  env_rejoin := [Inr False, Inr True]\<rparr>) boot))
     = trace boot @ [Post nominal_record, Activate True, Connect, Idle, Sleep]
 \<and> Connect \<in> set [Post nominal_record, Activate True, Connect, Idle, Sleep]
 \<and> caught_failure
       (nominal\<lparr>env_post := Inl (OSError [ErrNo 104]), env_link_up_after := False,
                 env_rejoin := [Inr False, Inr True]\<rparr>)"
proof -
  let ?down = "nominal\<lparr>env_link_up := False\<rparr>"
  let ?lost = "nominal\<lparr>env_post := Inl (OSError [ErrNo 104]), env_link_up_after := False,
                  env_rejoin := [Inr False, Inr True]\<rparr>"
  have a: "acquire node ?down = Inr nominal_record" "acquire node ?lost = Inr nominal_record"
    using acquire_nominal acquire_same_sensors [of ?down nominal node]
      acquire_same_sensors [of ?lost nominal node]
    by simp_all
  have d: "\<not> env_link_up ?down"
    by (simp add: nominal_def)
  have t: "trace (snd (cycle node ?lost boot))
      = trace boot @ [Post nominal_record, Activate True, Connect, Idle, Sleep]"
    by (simp add: a run_simps) (simp add: nominal_def run_simps)
  from link_down_before_post [of node ?down nominal_record boot "[nominal]"]
       link_down_before_post [of node ?lost _ boot]
       a d t
  show ?thesis
    by (simp add: boot_def)
qed

end
